theory Spec2Isabelle
  imports Main "HOL-Library.Sublist"
begin

section \<open>The text model\<close>

text \<open>
  \<^verbatim>\<open>fix_errors.py\<close> reads \<^verbatim>\<open>src/graphql.rs\<close>, rewrites it with three calls of
  \<^verbatim>\<open>re.sub\<close> and writes it back. A text is a \<^typ>\<open>string\<close>. Every character the three
  patterns and templates name is ASCII, and the only character class is \<^verbatim>\<open>[^)]\<close>, so the
  rewriting of a UTF-8 text is the same whether it is read as code points or as bytes.
\<close>

subsection \<open>One match of \<^verbatim>\<open>NAME\(([^)]+)\)\<close>\<close>

text \<open>
  The three patterns have one shape: a literal name, an escaped opening parenthesis, the
  group \<^verbatim>\<open>([^)]+)\<close> and an escaped closing parenthesis. \<open>match_at name s\<close> is the match
  of that pattern anchored at the start of \<open>s\<close>: the captured group and the text after
  the match. The greedy \<^verbatim>\<open>[^)]+\<close> takes every character up to the first \<^verbatim>\<open>)\<close> (or
  the end of the text); giving characters back cannot help, since the character after a
  shorter run is not \<^verbatim>\<open>)\<close>. So the match exists exactly when that run is not empty and a
  \<^verbatim>\<open>)\<close> follows it.
\<close>

definition match_at :: "string \<Rightarrow> string \<Rightarrow> (string \<times> string) option" where
  "match_at name s =
     (let lit = name @ ''(''
      in if prefix lit s
         then (let r = drop (length lit) s;
                   g = takeWhile (\<lambda>c. c \<noteq> CHR '')'') r;
                   t = dropWhile (\<lambda>c. c \<noteq> CHR '')'') r
               in if g \<noteq> [] \<and> t \<noteq> [] then Some (g, tl t) else None)
         else None)"

subsection \<open>Replacement templates\<close>

text \<open>
  A template is literal text with references to the captured group (\<^verbatim>\<open>\1\<close>).
\<close>

datatype piece = Lit string | Group1

fun expand :: "piece list \<Rightarrow> string \<Rightarrow> string" where
  "expand [] g = []"
| "expand (Lit t # ps) g = t @ expand ps g"
| "expand (Group1 # ps) g = g @ expand ps g"

subsection \<open>\<^verbatim>\<open>re.sub\<close>\<close>

text \<open>
  \<^verbatim>\<open>re.sub\<close> scans the text from the left. Where the pattern matches, the match is
  replaced by the expanded template and the scan goes on after the match; elsewhere the
  character is copied and the scan moves one character on. The pattern matches no empty
  text, so nothing happens at the end of the text.
\<close>

function re_sub :: "string \<Rightarrow> piece list \<Rightarrow> string \<Rightarrow> string" where
  "re_sub name repl [] = []"
| "re_sub name repl (c # cs) =
     (case match_at name (c # cs) of
        Some (g, rest) \<Rightarrow> expand repl g @ re_sub name repl rest
      | None \<Rightarrow> c # re_sub name repl cs)"
  by pat_completeness auto
termination
proof (relation "measure (\<lambda>(name, repl, s). length s)")
  fix name :: string and repl :: "piece list" and c cs m g rest
  assume m: "match_at name (c # cs) = Some m" and p: "(g, rest) = m"
  let ?r = "drop (Suc (length name)) (c # cs)"
  let ?t = "dropWhile (\<lambda>c. c \<noteq> CHR '')'') ?r"
  from m p have t: "?t \<noteq> []" and rest: "rest = tl ?t"
    by (auto simp: match_at_def Let_def split: if_splits)
  have "length rest < length ?t" using t rest by (cases ?t) auto
  also have "\<dots> \<le> length ?r" by (rule length_dropWhile_le)
  also have "\<dots> \<le> length (c # cs)" by simp
  finally show "((name, repl, rest), name, repl, c # cs) \<in> measure (\<lambda>(name, repl, s). length s)"
    by simp
qed simp_all

subsection \<open>\<^verbatim>\<open>fix_error_variants\<close>\<close>

definition rule_internal :: "string \<Rightarrow> string" where
  "rule_internal content =
     re_sub ''DbError::InternalError''
       [Lit ''DbError::InternalError { message: '', Group1,
        Lit '', context: None, debug_info: None }'']
       content"

definition rule_invalid :: "string \<Rightarrow> string" where
  "rule_invalid content =
     re_sub ''DbError::InvalidData''
       [Lit ''DbError::InvalidData { message: '', Group1,
        Lit '', field: None, expected_format: None }'']
       content"

definition rule_signature :: "string \<Rightarrow> string" where
  "rule_signature content =
     re_sub ''DbError::SignatureError''
       [Lit ''DbError::SignatureError { message: '', Group1,
        Lit '', public_key: None, signature: None }'']
       content"

definition fix_error_variants :: "string \<Rightarrow> string" where
  "fix_error_variants content =
     (let content = rule_internal content;
          content = rule_invalid content;
          content = rule_signature content
      in content)"

section \<open>The program\<close>

text \<open>
  The program opens \<^verbatim>\<open>src/graphql.rs\<close> for reading, rewrites what it read, opens the
  file for writing and prints one line. The world it runs in is the files by path, the
  paths that may not be read, the paths that may not be written, and the lines printed
  so far; a file's content is the text \<^verbatim>\<open>read\<close> returns for it. An \<^verbatim>\<open>open\<close>
  that fails raises; nothing catches it, so the run ends there.
\<close>

datatype error = FileNotFoundError | PermissionError

record world =
  files :: "string \<rightharpoonup> string"
  unreadable :: "string set"
  unwritable :: "string set"
  stdout :: "string list"

definition read_file :: "world \<Rightarrow> string \<Rightarrow> error + string" where
  "read_file w path =
     (case files w path of
        None \<Rightarrow> Inl FileNotFoundError
      | Some content \<Rightarrow>
          if path \<in> unreadable w then Inl PermissionError else Inr content)"

definition write_file :: "world \<Rightarrow> string \<Rightarrow> string \<Rightarrow> error + world" where
  "write_file w path content =
     (if path \<in> unwritable w then Inl PermissionError
      else Inr (w\<lparr>files := (files w)(path \<mapsto> content)\<rparr>))"

definition print :: "world \<Rightarrow> string \<Rightarrow> world" where
  "print w line = w\<lparr>stdout := stdout w @ [line]\<rparr>"

definition main :: "string list \<Rightarrow> world \<Rightarrow> (error + unit) \<times> world" where
  "main argv w =
     (case read_file w ''src/graphql.rs'' of
        Inl e \<Rightarrow> (Inl e, w)
      | Inr content \<Rightarrow>
          (let fixed_content = fix_error_variants content
           in case write_file w ''src/graphql.rs'' fixed_content of
                Inl e \<Rightarrow> (Inl e, w)
              | Inr w' \<Rightarrow> (Inr (), print w' ''Fixed error variants in src/graphql.rs'')))"

section \<open>Calls inside arguments\<close>

text \<open>
  The three rules side by side: the name each pattern starts with, and the template's text
  before and after the captured group.
\<close>

definition variants :: "(string \<times> string \<times> string) list" where
  "variants =
     [(''DbError::InternalError'', ''DbError::InternalError { message: '',
         '', context: None, debug_info: None }''),
      (''DbError::InvalidData'', ''DbError::InvalidData { message: '',
         '', field: None, expected_format: None }''),
      (''DbError::SignatureError'', ''DbError::SignatureError { message: '',
         '', public_key: None, signature: None }'')]"

text \<open>
  \<open>holds_call g\<close>: the text \<open>g\<close> contains one of the three call openings
  \<^verbatim>\<open>DbError::InternalError(\<close>, \<^verbatim>\<open>DbError::InvalidData(\<close>,
  \<^verbatim>\<open>DbError::SignatureError(\<close>.
\<close>

definition holds_call :: "string \<Rightarrow> bool" where
  "holds_call g = list_ex (\<lambda>(n, t1, t2). sublist (n @ ''('') g) variants"

text \<open>
  \<open>unnested s\<close>: wherever one of the three patterns matches in \<open>s\<close>, at any
  position, the captured argument contains none of the three call openings. Other
  parentheses may occur in an argument.
\<close>

fun unnested :: "string \<Rightarrow> bool" where
  "unnested [] = True"
| "unnested (c # cs) =
     (list_all (\<lambda>(n, t1, t2). case match_at n (c # cs) of
                    Some (g, rest) \<Rightarrow> \<not> holds_call g
                  | None \<Rightarrow> True) variants
      \<and> unnested cs)"

text \<open>
  \<open>has_call n s\<close>: the pattern with the name \<open>n\<close> matches somewhere in \<open>s\<close>.
\<close>

fun has_call :: "string \<Rightarrow> string \<Rightarrow> bool" where
  "has_call n [] = False"
| "has_call n (c # cs) = (match_at n (c # cs) \<noteq> None \<or> has_call n cs)"

subsection \<open>Rewriting with several rules in one scan\<close>

text \<open>
  A device for the proofs, not a function of the script: one scan from the left that tries
  every rule of a list at each position and applies the first that matches. On unnested
  texts the three calls of \<^verbatim>\<open>re.sub\<close>, in any order, add up to this scan with all
  three rules (\<open>fix_as_multi\<close> and \<open>three_rules_any_order\<close> below).
\<close>

fun first_match :: "(string \<times> string \<times> string) list \<Rightarrow> string \<Rightarrow> (string \<times> string) option" where
  "first_match [] s = None"
| "first_match ((n, t1, t2) # rs) s =
     (case match_at n s of
        Some (g, rest) \<Rightarrow> Some (t1 @ g @ t2, rest)
      | None \<Rightarrow> first_match rs s)"

function multi_sub :: "(string \<times> string \<times> string) list \<Rightarrow> string \<Rightarrow> string" where
  "multi_sub rs [] = []"
| "multi_sub rs (c # cs) =
     (case first_match rs (c # cs) of
        Some (out, rest) \<Rightarrow> out @ multi_sub rs rest
      | None \<Rightarrow> c # multi_sub rs cs)"
  by pat_completeness auto
termination
proof (relation "measure (\<lambda>(rs, s). length s)")
  fix rs :: "(string \<times> string \<times> string) list" and c cs m out rest
  assume m: "first_match rs (c # cs) = Some m" and p: "(out, rest) = m"
  have len: "length rest < length s" if "match_at n s = Some (g, rest)" for n s g
  proof -
    let ?r = "drop (Suc (length n)) s"
    let ?t = "dropWhile (\<lambda>c. c \<noteq> CHR '')'') ?r"
    from that have t: "?t \<noteq> []" and rest: "rest = tl ?t"
      by (auto simp: match_at_def Let_def split: if_splits)
    have "length rest < length ?t" using t rest by (cases ?t) auto
    also have "\<dots> \<le> length ?r" by (rule length_dropWhile_le)
    also have "\<dots> \<le> length s" by simp
    finally show ?thesis .
  qed
  have "first_match rs s = Some (out, rest) \<Longrightarrow> length rest < length s" for s
    by (induction rs) (auto split: option.splits dest: len)
  with m p have "length rest < length (c # cs)" by metis
  then show "((rs, rest), rs, c # cs) \<in> measure (\<lambda>(rs, s). length s)" by simp
qed simp_all

section \<open>Evaluation\<close>

lemmas fix_eval =
  fix_error_variants_def rule_internal_def rule_invalid_def rule_signature_def
  match_at_def Let_def

lemmas nest_eval = holds_call_def variants_def sublist_code

section \<open>Concrete runs\<close>

text \<open>
  C1: the file of the three lines
  \<^verbatim>\<open>return Err(DbError::InternalError("boom"));\<close>,
  \<^verbatim>\<open>return Err(DbError::InvalidData("nope"));\<close> and
  \<^verbatim>\<open>return Err(DbError::SignatureError("bad sig"));\<close>
  is rewritten to the three struct-literal lines, each variant with its own two added
  fields.
\<close>

theorem three_lines_rewritten:
  \<open>fix_error_variants
     ''return Err(DbError::InternalError("boom"));\<newline>return Err(DbError::InvalidData("nope"));\<newline>return Err(DbError::SignatureError("bad sig"));\<newline>''
   = ''return Err(DbError::InternalError { message: "boom", context: None, debug_info: None });\<newline>return Err(DbError::InvalidData { message: "nope", field: None, expected_format: None });\<newline>return Err(DbError::SignatureError { message: "bad sig", public_key: None, signature: None });\<newline>''\<close>
  by (simp add: fix_eval)

text \<open>
  C4: an argument with a nested call is cut at its first \<^verbatim>\<open>)\<close>: the group ends
  before the inner closing parenthesis, and the outer one is left after the struct
  literal.
\<close>

theorem nested_argument_truncated:
  \<open>fix_error_variants ''DbError::InvalidData(format!("bad {}", x))''
   = ''DbError::InvalidData { message: format!("bad {}", x, field: None, expected_format: None })''\<close>
  by (simp add: fix_eval)

text \<open>
  C10: a match may span lines. Here the opening parenthesis and the first \<^verbatim>\<open>)\<close> are
  on different lines; the rule is applied and the captured argument holds the line breaks.
\<close>

theorem match_spans_lines:
  \<open>fix_error_variants ''DbError::InternalError(\<newline>    "boom"\<newline>)''
   = ''DbError::InternalError { message: \<newline>    "boom"\<newline>, context: None, debug_info: None }''\<close>
  by (simp add: fix_eval)

section \<open>Texts without the variant names\<close>

lemma sublist_inner: "sublist (a @ n @ b) s \<Longrightarrow> sublist n s"
  unfolding sublist_def by (metis append.assoc)

lemma re_sub_absent: "\<not> sublist (name @ ''('') s \<Longrightarrow> re_sub name repl s = s"
proof (induction s)
  case Nil
  show ?case by simp
next
  case (Cons c cs)
  from Cons.prems have np: "\<not> prefix (name @ ''('') (c # cs)"
    and ns: "\<not> sublist (name @ ''('') cs"
    by (auto simp: sublist_Cons_right)
  from np have "match_at name (c # cs) = None" by (simp add: match_at_def)
  with Cons.IH [OF ns] show ?case by simp
qed

text \<open>
  C3: a text in which none of the names \<^verbatim>\<open>InternalError\<close>, \<^verbatim>\<open>InvalidData\<close> and
  \<^verbatim>\<open>SignatureError\<close> occurs is returned as it is.
\<close>

theorem no_variant_name_unchanged:
  assumes "\<not> sublist ''InternalError'' content"
    and "\<not> sublist ''InvalidData'' content"
    and "\<not> sublist ''SignatureError'' content"
  shows "fix_error_variants content = content"
proof -
  have 1: "\<not> sublist (''DbError::InternalError'' @ ''('') content"
    using assms(1) sublist_inner [of "''DbError::''" "''InternalError''" "''(''" content] by auto
  have 2: "\<not> sublist (''DbError::InvalidData'' @ ''('') content"
    using assms(2) sublist_inner [of "''DbError::''" "''InvalidData''" "''(''" content] by auto
  have 3: "\<not> sublist (''DbError::SignatureError'' @ ''('') content"
    using assms(3) sublist_inner [of "''DbError::''" "''SignatureError''" "''(''" content] by auto
  show ?thesis
    by (simp only: fix_error_variants_def rule_internal_def rule_invalid_def
        rule_signature_def Let_def re_sub_absent [OF 1] re_sub_absent [OF 2] re_sub_absent [OF 3])
qed

theorem no_variant_name_unchanged_witness:
  \<open>\<not> sublist ''InternalError'' ''return Err(DbError::NotFound("k"));''
   \<and> \<not> sublist ''InvalidData'' ''return Err(DbError::NotFound("k"));''
   \<and> \<not> sublist ''SignatureError'' ''return Err(DbError::NotFound("k"));''
   \<and> fix_error_variants ''return Err(DbError::NotFound("k"));'' = ''return Err(DbError::NotFound("k"));''\<close>
proof -
  have a: \<open>\<not> sublist ''InternalError'' ''return Err(DbError::NotFound("k"));''\<close> by code_simp
  have b: \<open>\<not> sublist ''InvalidData'' ''return Err(DbError::NotFound("k"));''\<close> by code_simp
  have c: \<open>\<not> sublist ''SignatureError'' ''return Err(DbError::NotFound("k"));''\<close> by code_simp
  from a b c no_variant_name_unchanged [OF a b c] show ?thesis by simp
qed

section \<open>The run of the program\<close>

text \<open>
  C7: when \<^verbatim>\<open>src/graphql.rs\<close> does not exist or may not be read, the run ends with an
  error and the world is as it was: no file is written and nothing is printed.
\<close>

theorem read_failure_writes_nothing:
  assumes "files w ''src/graphql.rs'' = None \<or> ''src/graphql.rs'' \<in> unreadable w"
  shows "\<exists>e. main argv w = (Inl e, w)"
  using assms by (auto simp: main_def read_file_def split: option.splits)

theorem read_failure_writes_nothing_witness:
  "(files \<lparr>files = Map.empty, unreadable = {}, unwritable = {}, stdout = []\<rparr> ''src/graphql.rs'' = None
      \<or> ''src/graphql.rs'' \<in> unreadable \<lparr>files = Map.empty, unreadable = {}, unwritable = {}, stdout = []\<rparr>)
   \<and> (\<exists>e. main [''fix_errors.py'', ''--dry-run'']
              \<lparr>files = Map.empty, unreadable = {}, unwritable = {}, stdout = []\<rparr>
            = (Inl e, \<lparr>files = Map.empty, unreadable = {}, unwritable = {}, stdout = []\<rparr>))"
  using read_failure_writes_nothing
    [of "\<lparr>files = Map.empty, unreadable = {}, unwritable = {}, stdout = []\<rparr>"
        "[''fix_errors.py'', ''--dry-run'']"]
  by simp

text \<open>
  C8: the command-line arguments are not read: two runs in the same world with any two
  argument vectors end alike, with the same files and the same printed lines.
\<close>

theorem main_ignores_argv: "main argv1 w = main argv2 w"
  by (simp add: main_def)

section \<open>Matches and scans\<close>

lemma match_at_Some_iff:
  "match_at n s = Some (g, rest) \<longleftrightarrow>
     s = n @ CHR ''('' # g @ CHR '')'' # rest \<and> g \<noteq> [] \<and> CHR '')'' \<notin> set g"
proof
  assume m: "match_at n s = Some (g, rest)"
  let ?P = "\<lambda>c. c \<noteq> CHR '')''"
  let ?r = "drop (Suc (length n)) s"
  from m have p: "prefix (n @ ''('') s" and g: "g = takeWhile ?P ?r" and ne: "g \<noteq> []"
    and t: "dropWhile ?P ?r \<noteq> []" and rest: "rest = tl (dropWhile ?P ?r)"
    by (auto simp: match_at_def Let_def split: if_splits)
  from t have "hd (dropWhile ?P ?r) = CHR '')''" using hd_dropWhile [of ?P ?r] by auto
  with t rest have d: "dropWhile ?P ?r = CHR '')'' # rest" by (cases "dropWhile ?P ?r") auto
  have "?r = g @ CHR '')'' # rest" using takeWhile_dropWhile_id [of ?P ?r] g d by simp
  moreover from p have "s = (n @ ''('') @ ?r" by (auto simp: prefix_def)
  moreover have "CHR '')'' \<notin> set g" using g by (auto dest: set_takeWhileD)
  ultimately show "s = n @ CHR ''('' # g @ CHR '')'' # rest \<and> g \<noteq> [] \<and> CHR '')'' \<notin> set g"
    using ne by simp
next
  assume "s = n @ CHR ''('' # g @ CHR '')'' # rest \<and> g \<noteq> [] \<and> CHR '')'' \<notin> set g"
  then have s: "s = n @ CHR ''('' # g @ CHR '')'' # rest" and ne: "g \<noteq> []"
    and ng: "CHR '')'' \<notin> set g" by auto
  from ng have tw: "takeWhile (\<lambda>c. c \<noteq> CHR '')'') (g @ CHR '')'' # rest) = g"
    by (induction g) auto
  from ng have dw: "dropWhile (\<lambda>c. c \<noteq> CHR '')'') (g @ CHR '')'' # rest) = CHR '')'' # rest"
    by (induction g) auto
  show "match_at n s = Some (g, rest)"
    by (simp add: match_at_def Let_def s tw dw ne)
qed


lemma match_at_prefix: "match_at n s = Some p \<Longrightarrow> prefix (n @ ''('') s"
  by (simp add: match_at_def Let_def split: if_splits)

lemma match_at_append:
  "match_at n s = Some (g, rest) \<Longrightarrow> match_at n (s @ y) = Some (g, rest @ y)"
  by (simp add: match_at_Some_iff)

lemma variants_names:
  assumes "(n, t1, t2) \<in> set variants"
  shows "CHR ''('' \<notin> set n" and "CHR '')'' \<notin> set n" and "CHR '' '' \<notin> set n"
    and "CHR ''}'' \<notin> set n"
  using assms by (auto simp: variants_def)

lemma variants_templates:
  assumes "(n, t1, t2) \<in> set variants"
  shows "CHR ''('' \<notin> set t1" and "CHR ''('' \<notin> set t2"
    and "t1 \<noteq> []" and "last t1 = CHR '' ''" and "t2 \<noteq> []" and "last t2 = CHR ''}''"
  using assms by (auto simp: variants_def)

lemma variants_length:
  assumes "(n, t1, t2) \<in> set variants" and "(n', t1', t2') \<in> set variants"
  shows "length n' < length t1"
  using assms by (auto simp: variants_def)

lemma variants_suffix:
  assumes "(n, t1, t2) \<in> set variants" and "(n', t1', t2') \<in> set variants"
    and "suffix n n'"
  shows "n = n'"
  using assms by (auto simp: variants_def suffix_to_prefix)

lemma variants_functional:
  assumes "(n, t1, t2) \<in> set variants" and "(n, t1', t2') \<in> set variants"
  shows "t1 = t1' \<and> t2 = t2'"
  using assms by (auto simp: variants_def)

lemma match_at_name_unique:
  assumes "match_at n s = Some p" and "match_at n' s = Some p'"
    and "CHR ''('' \<notin> set n" and "CHR ''('' \<notin> set n'"
  shows "n = n'"
proof -
  have tw: "takeWhile (\<lambda>c. c \<noteq> CHR ''('') (m @ CHR ''('' # r) = m"
    if "CHR ''('' \<notin> set m" for m r :: string
    using that by (induction m) auto
  from assms(1) obtain r where r: "s = n @ CHR ''('' # r"
    by (auto dest!: match_at_prefix simp: prefix_def)
  from assms(2) obtain r' where r': "s = n' @ CHR ''('' # r'"
    by (auto dest!: match_at_prefix simp: prefix_def)
  from tw [OF assms(3), of r] tw [OF assms(4), of r'] r r' show ?thesis by simp
qed

lemma first_match_SomeD:
  "first_match rs s = Some (out, rest) \<Longrightarrow>
     \<exists>n t1 t2 g. (n, t1, t2) \<in> set rs \<and> match_at n s = Some (g, rest) \<and> out = t1 @ g @ t2"
proof (induction rs)
  case Nil
  then show ?case by simp
next
  case (Cons r rs)
  obtain n' t1' t2' where r: "r = (n', t1', t2')" by (cases r)
  show ?case
  proof (cases "match_at n' s")
    case None
    with Cons.prems r have "first_match rs s = Some (out, rest)" by simp
    from Cons.IH [OF this] obtain n t1 t2 g
      where "(n, t1, t2) \<in> set rs" "match_at n s = Some (g, rest)" "out = t1 @ g @ t2"
      by blast
    then have "(n, t1, t2) \<in> set (r # rs) \<and> match_at n s = Some (g, rest) \<and> out = t1 @ g @ t2"
      by simp
    then show ?thesis by blast
  next
    case (Some p)
    with Cons.prems r have "match_at n' s = Some (fst p, rest)" and "out = t1' @ fst p @ t2'"
      by (auto split: prod.splits)
    with r have "(n', t1', t2') \<in> set (r # rs) \<and> match_at n' s = Some (fst p, rest)
        \<and> out = t1' @ fst p @ t2'" by simp
    then show ?thesis by blast
  qed
qed

lemma first_match_None_iff:
  "first_match rs s = None \<longleftrightarrow> (\<forall>(n, t1, t2) \<in> set rs. match_at n s = None)"
  by (induction rs) (auto split: option.splits)

lemma first_match_SomeI:
  assumes "set rs \<subseteq> set variants" and "(n, t1, t2) \<in> set rs"
    and "match_at n s = Some (g, rest)"
  shows "first_match rs s = Some (t1 @ g @ t2, rest)"
  using assms
proof (induction rs)
  case Nil
  then show ?case by simp
next
  case (Cons r rs)
  obtain n' t1' t2' where r: "r = (n', t1', t2')" by (cases r)
  show ?case
  proof (cases "match_at n' s")
    case None
    with Cons r show ?thesis by auto
  next
    case (Some p)
    from Cons.prems r have v': "(n', t1', t2') \<in> set variants" and v: "(n, t1, t2) \<in> set variants"
      by auto
    from match_at_name_unique [OF Some Cons.prems(3) variants_names(1) [OF v'] variants_names(1) [OF v]]
    have "n' = n" .
    with variants_functional [OF v, of t1' t2'] v' Some Cons.prems(3) r show ?thesis by auto
  qed
qed

lemma first_match_set:
  assumes "set rs \<subseteq> set variants" and "set rs' = set rs"
  shows "first_match rs' s = first_match rs s"
proof (cases "first_match rs s")
  case None
  have "first_match rs' s = None"
    unfolding first_match_None_iff using None [unfolded first_match_None_iff] assms(2) by simp
  with None show ?thesis by simp
next
  case (Some p)
  obtain out rest where p: "p = (out, rest)" by (cases p)
  from first_match_SomeD [OF Some [unfolded p]] obtain n t1 t2 g
    where "(n, t1, t2) \<in> set rs" "match_at n s = Some (g, rest)" "out = t1 @ g @ t2" by blast
  with first_match_SomeI [of rs' n t1 t2 s g rest] assms Some p show ?thesis by simp
qed

lemma multi_sub_set:
  assumes "set rs \<subseteq> set variants" and "set rs' = set rs"
  shows "multi_sub rs' s = multi_sub rs s"
proof (induction s rule: length_induct)
  case (1 s)
  show ?case
  proof (cases s)
    case Nil
    then show ?thesis by simp
  next
    case (Cons c cs)
    note fm = first_match_set [OF assms, of s]
    show ?thesis
    proof (cases "first_match rs s")
      case None
      with fm Cons 1 show ?thesis by simp
    next
      case (Some p)
      obtain out rest where p: "p = (out, rest)" by (cases p)
      from first_match_SomeD [OF Some [unfolded p]] have "length rest < length s"
        by (auto simp: match_at_Some_iff)
      with 1 have "multi_sub rs' rest = multi_sub rs rest" by simp
      with fm Some p Cons show ?thesis by simp
    qed
  qed
qed

lemma multi_sub_Some:
  "first_match rs s = Some (out, rest) \<Longrightarrow> multi_sub rs s = out @ multi_sub rs rest"
proof (cases s)
  case Nil
  assume "first_match rs s = Some (out, rest)"
  with Nil first_match_SomeD [of rs "[]" out rest] show ?thesis
    by (auto simp: match_at_def)
next
  case (Cons c cs)
  assume "first_match rs s = Some (out, rest)"
  with Cons show ?thesis by simp
qed

lemma multi_sub_skip:
  assumes "\<And>u v. b = u @ v \<Longrightarrow> v \<noteq> [] \<Longrightarrow> first_match rs (v @ y) = None"
  shows "multi_sub rs (b @ y) = b @ multi_sub rs y"
  using assms
proof (induction b)
  case Nil
  show ?case by simp
next
  case (Cons c b)
  from Cons.prems [of "[]" "c # b"] have "first_match rs (c # b @ y) = None" by simp
  moreover have "multi_sub rs (b @ y) = b @ multi_sub rs y"
  proof (rule Cons.IH)
    fix u v assume "b = u @ v" "v \<noteq> []"
    with Cons.prems [of "c # u" v] show "first_match rs (v @ y) = None" by simp
  qed
  ultimately show ?case by simp
qed

lemma re_sub_multi: "re_sub n [Lit t1, Group1, Lit t2] s = multi_sub [(n, t1, t2)] s"
  by (induction n "[Lit t1, Group1, Lit t2]" s rule: re_sub.induct)
     (auto split: option.splits)

section \<open>Where a call opening can start\<close>

lemma holds_call_iff:
  "holds_call g \<longleftrightarrow> (\<exists>(n, t1, t2) \<in> set variants. sublist (n @ ''('') g)"
  by (simp add: holds_call_def list_ex_iff)

lemma unnested_suffix: "unnested (u @ v) \<Longrightarrow> unnested v"
  by (induction u) auto

lemma unnested_match:
  assumes "unnested s" and "(n, t1, t2) \<in> set variants" and "match_at n s = Some (g, rest)"
  shows "\<not> holds_call g"
proof (cases s)
  case Nil
  with assms(3) show ?thesis by (simp add: match_at_def)
next
  case (Cons c cs)
  with assms show ?thesis by (auto simp: list_all_iff)
qed

lemma lit_prefix_cases:
  assumes "prefix (n @ [p]) (v @ y)"
  shows "prefix (n @ [p]) v \<or> prefix v n"
  using assms by (metis prefixI prefix_same_cases prefix_snoc)

lemma no_call_in_expansion:
  assumes n: "(n, t1', t2') \<in> set variants" and k: "(k, t1, t2) \<in> set variants"
    and g: "\<not> holds_call g"
  shows "\<not> sublist (n @ ''('') (t1 @ g @ t2)"
proof
  let ?lit = "n @ ''(''"
  assume s: "sublist ?lit (t1 @ g @ t2)"
  from g n have ng: "\<not> sublist ?lit g" by (auto simp: holds_call_iff)
  have nt1: "\<not> sublist ?lit t1" and nt2: "\<not> sublist ?lit t2"
    using variants_templates(1,2) [OF k] by (auto dest: set_mono_sublist)
  have a: "\<not> sublist ?lit (g @ t2)"
  proof
    assume "sublist ?lit (g @ t2)"
    with ng nt2 obtain x1 x2 where x: "?lit = x1 @ x2" "suffix x1 g" "prefix x2 t2"
      by (auto simp: sublist_append)
    show False
    proof (cases "x2 = []")
      case True
      with x ng show False by auto
    next
      case False
      with x(1) have "last x2 = CHR ''(''" by (metis last_appendR last_snoc)
      with False have "CHR ''('' \<in> set x2" by (metis last_in_set)
      with x(3) variants_templates(2) [OF k] show False by (auto dest: set_mono_prefix)
    qed
  qed
  with s nt1 obtain x1 x2 where x: "?lit = x1 @ x2" "suffix x1 t1" "prefix x2 (g @ t2)"
    by (auto simp: sublist_append)
  show False
  proof (cases "x1 = []")
    case True
    with x a show False by auto
  next
    case False
    with x(2) have "last x1 = last t1" by (auto simp: suffix_def)
    with False variants_templates(4) [OF k] have "CHR '' '' \<in> set x1" by (metis last_in_set)
    then have "CHR '' '' \<in> set ?lit" by (simp only: x(1)) simp
    with variants_names(3) [OF n] show False by simp
  qed
qed

lemma expansion_no_match:
  assumes n: "(n, t1', t2') \<in> set variants" and k: "(k, t1, t2) \<in> set variants"
    and g: "\<not> holds_call g" and uv: "t1 @ g @ t2 = u @ v" and v: "v \<noteq> []"
  shows "match_at n (v @ y) = None"
proof (rule ccontr)
  assume "match_at n (v @ y) \<noteq> None"
  then have "prefix (n @ [CHR ''(''])  (v @ y)" by (auto dest: match_at_prefix)
  then show False
  proof (rule lit_prefix_cases [THEN disjE])
    assume "prefix (n @ [CHR ''('']) v"
    then have "sublist (n @ ''('') (u @ v)" by (auto simp: prefix_def sublist_def)
    with no_call_in_expansion [OF n k g] uv show False by simp
  next
    assume p: "prefix v n"
    from v uv have "last v = last (t1 @ g @ t2)" by simp
    also have "\<dots> = CHR ''}''" using variants_templates(5,6) [OF k] by simp
    finally have "CHR ''}'' \<in> set v" using v by (metis last_in_set)
    with p variants_names(4) [OF n] show False by (auto dest: set_mono_prefix)
  qed
qed

lemma call_block_no_prefix:
  assumes n: "(n, t1', t2') \<in> set variants" and k: "(k, t1, t2) \<in> set variants"
    and g: "\<not> holds_call g" and uv: "k @ CHR ''('' # g @ [CHR '')''] = u @ v"
    and u: "u \<noteq> []" and v: "v \<noteq> []"
  shows "\<not> prefix (n @ ''('') (v @ y)"
proof
  assume "prefix (n @ ''('') (v @ y)"
  then show False
  proof (rule lit_prefix_cases [THEN disjE])
    assume p: "prefix v n"
    from v uv have "last v = last (k @ CHR ''('' # g @ [CHR '')''])" by simp
    then have "CHR '')'' \<in> set v" using v by (metis last_in_set last_snoc last_appendR list.distinct(1) last_ConsR snoc_eq_iff_butlast)
    with p variants_names(2) [OF n] show False by (auto dest: set_mono_prefix)
  next
    assume "prefix (n @ [CHR ''('']) v"
    then obtain w where w: "v = n @ CHR ''('' # w" by (auto simp: prefix_def)
    with uv have e: "k @ CHR ''('' # (g @ [CHR '')'']) = (u @ n) @ CHR ''('' # w" by simp
    from e obtain us
      where "(k = (u @ n) @ us \<and> us @ CHR ''('' # (g @ [CHR '')'']) = CHR ''('' # w)
        \<or> (k @ us = u @ n \<and> CHR ''('' # (g @ [CHR '')'']) = us @ CHR ''('' # w)"
      unfolding append_eq_append_conv2 by blast
    then consider (same) "k = u @ n"
      | (inner) z where "k @ CHR ''('' # z = u @ n" "g @ [CHR '')''] = z @ CHR ''('' # w"
      | (outer) z where "k = u @ n @ CHR ''('' # z"
      by (cases us) auto
    then show False
    proof cases
      case same
      then have "suffix n k" by (simp add: suffix_def)
      from variants_suffix [OF n k this] same u show False by simp
    next
      case (inner z)
      from inner(1) [symmetric] have "u @ n = (k @ [CHR ''('']) @ z" by simp
      then obtain us where "(u = (k @ [CHR ''('']) @ us \<and> us @ n = z)
          \<or> (u @ us = k @ [CHR ''(''] \<and> n = us @ z)"
        unfolding append_eq_append_conv2 by blast
      then obtain z' where z': "z = z' @ n"
      proof (elim disjE conjE)
        assume "us @ n = z"
        with that show thesis by blast
      next
        assume a: "u @ us = k @ [CHR ''('']" "n = us @ z"
        have "us = []"
        proof (rule ccontr)
          assume "us \<noteq> []"
          with a(1) have "last us = CHR ''(''" by (metis last_appendR last_snoc)
          with \<open>us \<noteq> []\<close> have "CHR ''('' \<in> set us" by (metis last_in_set)
          with a(2) variants_names(1) [OF n] show False by simp
        qed
        with a(2) that [of "[]"] show thesis by simp
      qed
      from inner(2) obtain w' where "w = w' @ [CHR '')'']"
        by (cases w rule: rev_cases) auto
      with inner(2) z' have "g = z' @ (n @ ''('') @ w'" by simp
      then have "sublist (n @ ''('') g" unfolding sublist_def by blast
      with g n show False by (auto simp: holds_call_iff)
    next
      case (outer z)
      with variants_names(1) [OF k] show False by simp
    qed
  qed
qed

section \<open>One rule after a scan with others\<close>

lemma first_occurrence:
  "x \<notin> set a \<Longrightarrow> x \<notin> set b \<Longrightarrow> a @ x # r = b @ x # r' \<Longrightarrow> a = b"
proof (induction a arbitrary: b)
  case Nil
  then show ?case by (cases b) auto
next
  case (Cons y a)
  then show ?case by (cases b) auto
qed

lemma multi_sub_None:
  "first_match rs (c # cs) = None \<Longrightarrow> multi_sub rs (c # cs) = c # multi_sub rs cs"
  by simp

lemma multi_sub_first_change:
  "multi_sub rs s = s \<or>
   (\<exists>u n t1 t2 g rest. (n, t1, t2) \<in> set rs \<and> s = u @ n @ CHR ''('' # g @ CHR '')'' # rest
      \<and> g \<noteq> [] \<and> CHR '')'' \<notin> set g \<and> multi_sub rs s = u @ t1 @ g @ t2 @ multi_sub rs rest)"
proof (induction s)
  case Nil
  show ?case by simp
next
  case (Cons c cs)
  show ?case
  proof (cases "first_match rs (c # cs)")
    case None
    from Cons.IH show ?thesis
    proof
      assume "multi_sub rs cs = cs"
      with None show ?thesis by simp
    next
      assume "\<exists>u n t1 t2 g rest. (n, t1, t2) \<in> set rs \<and> cs = u @ n @ CHR ''('' # g @ CHR '')'' # rest
        \<and> g \<noteq> [] \<and> CHR '')'' \<notin> set g \<and> multi_sub rs cs = u @ t1 @ g @ t2 @ multi_sub rs rest"
      then obtain u n t1 t2 g rest where h: "(n, t1, t2) \<in> set rs"
        "cs = u @ n @ CHR ''('' # g @ CHR '')'' # rest" "g \<noteq> []" "CHR '')'' \<notin> set g"
        "multi_sub rs cs = u @ t1 @ g @ t2 @ multi_sub rs rest" by blast
      with None have "(n, t1, t2) \<in> set rs \<and> c # cs = (c # u) @ n @ CHR ''('' # g @ CHR '')'' # rest
        \<and> g \<noteq> [] \<and> CHR '')'' \<notin> set g
        \<and> multi_sub rs (c # cs) = (c # u) @ t1 @ g @ t2 @ multi_sub rs rest" by simp
      then show ?thesis by blast
    qed
  next
    case (Some p)
    obtain out rest where p: "p = (out, rest)" by (cases p)
    from first_match_SomeD [OF Some [unfolded p]] obtain n t1 t2 g
      where h: "(n, t1, t2) \<in> set rs" "match_at n (c # cs) = Some (g, rest)" "out = t1 @ g @ t2"
      by blast
    from multi_sub_Some [OF Some [unfolded p]] h(3)
    have "multi_sub rs (c # cs) = [] @ t1 @ g @ t2 @ multi_sub rs rest" by simp
    moreover from h(2) have "c # cs = [] @ n @ CHR ''('' # g @ CHR '')'' # rest
        \<and> g \<noteq> [] \<and> CHR '')'' \<notin> set g"
      by (simp add: match_at_Some_iff)
    ultimately show ?thesis using h(1) by blast
  qed
qed

lemma match_at_exists_iff:
  "(\<exists>p. match_at n s = Some p) \<longleftrightarrow>
     (\<exists>g rest. s = n @ CHR ''('' # g @ CHR '')'' # rest \<and> g \<noteq> [] \<and> CHR '')'' \<notin> set g)"
  by (metis match_at_Some_iff surj_pair)

lemma scan_head_stable:
  assumes n: "(n, t1', t2') \<in> set variants" and rs: "set rs \<subseteq> set variants"
    and none: "match_at n (c # cs) = None"
  shows "match_at n (c # multi_sub rs cs) = None"
proof (rule ccontr)
  assume "match_at n (c # multi_sub rs cs) \<noteq> None"
  then obtain g' rest' where m: "c # multi_sub rs cs = n @ CHR ''('' # g' @ CHR '')'' # rest'"
    "g' \<noteq> []" "CHR '')'' \<notin> set g'"
    using match_at_exists_iff [of n "c # multi_sub rs cs"] by auto
  from multi_sub_first_change [of rs cs] show False
  proof (elim disjE exE conjE)
    assume "multi_sub rs cs = cs"
    with none \<open>match_at n (c # multi_sub rs cs) \<noteq> None\<close> show False by simp
  next
    fix u k t1 t2 g rest
    assume k: "(k, t1, t2) \<in> set rs" and cs: "cs = u @ k @ CHR ''('' # g @ CHR '')'' # rest"
      and g: "g \<noteq> []" "CHR '')'' \<notin> set g"
      and ms: "multi_sub rs cs = u @ t1 @ g @ t2 @ multi_sub rs rest"
    from k rs have kv: "(k, t1, t2) \<in> set variants" by auto
    let ?W = "g @ t2 @ multi_sub rs rest"
    from m(1) ms have "prefix (n @ [CHR ''('']) ((c # u) @ t1 @ ?W)" by (simp add: prefix_def)
    then have "prefix (n @ [CHR ''('']) (c # u)"
    proof (rule lit_prefix_cases [THEN disjE])
      assume p: "prefix (c # u) n"
      from m(1) ms have e: "(c # u) @ t1 @ ?W = n @ CHR ''('' # g' @ CHR '')'' # rest'" by simp
      from p obtain n2 where n2: "n = (c # u) @ n2" by (auto simp: prefix_def)
      with e have "t1 @ ?W = (n2 @ [CHR ''('']) @ g' @ CHR '')'' # rest'" by simp
      moreover have "length (n2 @ [CHR ''('']) \<le> length t1"
        using variants_length [OF kv n] n2 by simp
      ultimately have "prefix (n2 @ [CHR ''('']) t1"
        by (metis prefixI prefix_length_prefix)
      then have "CHR ''('' \<in> set t1" by (auto dest: set_mono_prefix)
      with variants_templates(1) [OF kv] show ?thesis by simp
    qed
    then obtain z where z: "c # u = n @ CHR ''('' # z" by (auto simp: prefix_def)
    from m(1) ms have "(c # u) @ t1 @ g @ t2 @ multi_sub rs rest = n @ CHR ''('' # g' @ CHR '')'' # rest'"
      by simp
    then have e: "z @ t1 @ g @ t2 @ multi_sub rs rest = g' @ CHR '')'' # rest'"
      unfolding z by simp
    from z cs have orig: "c # cs = n @ CHR ''('' # z @ k @ CHR ''('' # g @ CHR '')'' # rest" by simp
    have "\<exists>p. match_at n (c # cs) = Some p"
    proof (cases "CHR '')'' \<in> set z")
      case True
      then obtain z1 z2 where zz: "z = z1 @ CHR '')'' # z2" "CHR '')'' \<notin> set z1"
        by (auto dest: split_list_first)
      with e have "z1 @ CHR '')'' # (z2 @ t1 @ g @ t2 @ multi_sub rs rest) = g' @ CHR '')'' # rest'"
        by simp
      with zz(2) m(3) have "z1 = g'" by (metis first_occurrence)
      with m(2) zz orig have "c # cs = n @ CHR ''('' # z1 @ CHR '')'' # (z2 @ k @ CHR ''('' # g @ CHR '')'' # rest)
          \<and> z1 \<noteq> [] \<and> CHR '')'' \<notin> set z1" by simp
      then show ?thesis unfolding match_at_exists_iff by blast
    next
      case False
      with orig g variants_names(2) [OF kv]
      have "c # cs = n @ CHR ''('' # (z @ k @ CHR ''('' # g) @ CHR '')'' # rest
          \<and> z @ k @ CHR ''('' # g \<noteq> [] \<and> CHR '')'' \<notin> set (z @ k @ CHR ''('' # g)" by simp
      then show ?thesis unfolding match_at_exists_iff by blast
    qed
    with none show False by simp
  qed
qed

lemma first_match_append_rule:
  "first_match (rs @ [(n, t1, t2)]) s =
     (case first_match rs s of
        Some p \<Rightarrow> Some p
      | None \<Rightarrow> (case match_at n s of Some (g, rest) \<Rightarrow> Some (t1 @ g @ t2, rest) | None \<Rightarrow> None))"
  by (induction rs) (auto split: option.splits)

lemma multi_sub_after:
  assumes x: "unnested x" and rs: "set rs \<subseteq> set variants" and r: "(n, t1, t2) \<in> set variants"
  shows "multi_sub [(n, t1, t2)] (multi_sub rs x) = multi_sub (rs @ [(n, t1, t2)]) x"
  using x
proof (induction x rule: length_induct)
  case (1 x)
  note ih = "1.IH" [rule_format]
  show ?case
  proof (cases x)
    case Nil
    then show ?thesis by simp
  next
    case (Cons c cs)
    show ?thesis
    proof (cases "first_match rs x")
      case (Some p)
      obtain out rest where p: "p = (out, rest)" by (cases p)
      from first_match_SomeD [OF Some [unfolded p]] obtain k k1 k2 g
        where k: "(k, k1, k2) \<in> set rs" and m: "match_at k x = Some (g, rest)"
          and out: "out = k1 @ g @ k2" by blast
      from k rs have kv: "(k, k1, k2) \<in> set variants" by auto
      from unnested_match [OF "1.prems" kv m] have g: "\<not> holds_call g" .
      from m have xe: "x = (k @ CHR ''('' # g @ [CHR '')'']) @ rest" and len: "length rest < length x"
        by (auto simp: match_at_Some_iff)
      from xe "1.prems" have ur: "unnested rest" by (metis unnested_suffix)
      have "multi_sub [(n, t1, t2)] (out @ multi_sub rs rest)
            = out @ multi_sub [(n, t1, t2)] (multi_sub rs rest)"
      proof (rule multi_sub_skip)
        fix u v assume "out = u @ v" "v \<noteq> []"
        with expansion_no_match [OF r kv g, of u v] out
        show "first_match [(n, t1, t2)] (v @ multi_sub rs rest) = None" by simp
      qed
      also have "\<dots> = out @ multi_sub (rs @ [(n, t1, t2)]) rest"
        using ih [OF len ur] by simp
      finally show ?thesis
        using Some p by (simp add: multi_sub_Some first_match_append_rule)
    next
      case None
      show ?thesis
      proof (cases "match_at n x")
        case (Some p)
        obtain g rest where p: "p = (g, rest)" by (cases p)
        from Some p have m: "match_at n x = Some (g, rest)" by simp
        from unnested_match [OF "1.prems" r m] have g: "\<not> holds_call g" .
        let ?b = "n @ CHR ''('' # g @ [CHR '')'']"
        from m have xe: "x = ?b @ rest" and len: "length rest < length x"
          and gg: "g \<noteq> []" "CHR '')'' \<notin> set g"
          by (auto simp: match_at_Some_iff)
        from xe "1.prems" have ur: "unnested rest" by (metis unnested_suffix)
        have "multi_sub rs (?b @ rest) = ?b @ multi_sub rs rest"
        proof (rule multi_sub_skip)
          fix u v assume uv: "?b = u @ v" "v \<noteq> []"
          show "first_match rs (v @ rest) = None"
          proof (cases "u = []")
            case True
            with uv xe None show ?thesis by simp
          next
            case False
            have "match_at k (v @ rest) = None" if "(k, k1, k2) \<in> set rs" for k k1 k2
            proof -
              from that rs have "(k, k1, k2) \<in> set variants" by auto
              from call_block_no_prefix [OF this r g uv(1) False uv(2), of rest]
              show ?thesis by (cases "match_at k (v @ rest)") (auto dest: match_at_prefix)
            qed
            then show ?thesis by (auto simp: first_match_None_iff)
          qed
        qed
        with xe have "multi_sub rs x = n @ CHR ''('' # g @ CHR '')'' # multi_sub rs rest" by simp
        then have "match_at n (multi_sub rs x) = Some (g, multi_sub rs rest)"
          using gg by (simp add: match_at_Some_iff)
        then have "multi_sub [(n, t1, t2)] (multi_sub rs x)
            = (t1 @ g @ t2) @ multi_sub [(n, t1, t2)] (multi_sub rs rest)"
          by (intro multi_sub_Some) simp
        also have "\<dots> = (t1 @ g @ t2) @ multi_sub (rs @ [(n, t1, t2)]) rest"
          using ih [OF len ur] by simp
        finally show ?thesis
          using None m by (simp add: multi_sub_Some first_match_append_rule)
      next
        case nm: None
        from scan_head_stable [OF r rs, of c cs] nm Cons
        have "match_at n (c # multi_sub rs cs) = None" by simp
        moreover from "1.prems" Cons have "unnested cs" by simp
        ultimately show ?thesis
          using None nm Cons ih [of cs] by (simp add: first_match_append_rule)
      qed
    qed
  qed
qed

section \<open>The three rules on unnested texts\<close>

lemma multi_sub_Nil: "multi_sub [] s = s"
  by (induction s) auto

lemma rules_as_multi:
  "rule_internal s = multi_sub [variants ! 0] s"
  "rule_invalid s = multi_sub [variants ! 1] s"
  "rule_signature s = multi_sub [variants ! 2] s"
  by (simp_all add: rule_internal_def rule_invalid_def rule_signature_def re_sub_multi variants_def)

lemma variants_nth: "variants ! 0 \<in> set variants" "variants ! 1 \<in> set variants"
  "variants ! 2 \<in> set variants"
  by (simp_all add: variants_def)

lemma multi_sub_after_rule:
  assumes "unnested x" and "set rs \<subseteq> set variants" and "r \<in> set variants"
  shows "multi_sub [r] (multi_sub rs x) = multi_sub (rs @ [r]) x"
  using multi_sub_after [OF assms(1,2), of "fst r" "fst (snd r)" "snd (snd r)"] assms(3) by simp

lemma three_rules_any_order:
  assumes x: "unnested x" and a: "a \<in> set variants" and b: "b \<in> set variants"
    and c: "c \<in> set variants" and all: "set [a, b, c] = set variants"
  shows "multi_sub [c] (multi_sub [b] (multi_sub [a] x)) = multi_sub variants x"
proof -
  have "multi_sub [a] x = multi_sub [a] (multi_sub [] x)" by (simp add: multi_sub_Nil)
  also have "\<dots> = multi_sub [a] x" using multi_sub_after_rule [OF x _ a, of "[]"] by simp
  finally have "multi_sub [b] (multi_sub [a] x) = multi_sub [a, b] x"
    using multi_sub_after_rule [OF x _ b, of "[a]"] a by simp
  then have "multi_sub [c] (multi_sub [b] (multi_sub [a] x)) = multi_sub [a, b, c] x"
    using multi_sub_after_rule [OF x _ c, of "[a, b]"] a b by simp
  also have "\<dots> = multi_sub variants x"
    by (rule multi_sub_set [OF subset_refl all])
  finally show ?thesis .
qed

lemma fix_as_multi:
  assumes "unnested x"
  shows "fix_error_variants x = multi_sub variants x"
  unfolding fix_error_variants_def Let_def rules_as_multi
  by (rule three_rules_any_order [OF assms variants_nth]) (simp add: variants_def)

lemma multi_sub_settled:
  assumes x: "unnested x" and r: "r \<in> set variants"
  shows "multi_sub [r] (multi_sub variants x) = multi_sub variants x"
proof -
  have "multi_sub [r] (multi_sub variants x) = multi_sub (variants @ [r]) x"
    by (rule multi_sub_after_rule [OF x _ r]) simp
  also have "\<dots> = multi_sub variants x"
    by (rule multi_sub_set) (use r in auto)
  finally show ?thesis .
qed

lemma unnested_prefix: "unnested (u @ v) \<Longrightarrow> unnested u"
proof (induction u)
  case Nil
  show ?case by simp
next
  case (Cons c u)
  have "\<not> holds_call g" if "(n, t1, t2) \<in> set variants" "match_at n (c # u) = Some (g, rest)"
    for n t1 t2 g rest
    using unnested_match [OF Cons.prems that(1) match_at_append [OF that(2)]] .
  with Cons show ?case by (auto simp: list_all_iff split: option.splits)
qed

lemma multi_sub_split:
  assumes rs: "set rs \<subseteq> set variants" and n: "(n, t1, t2) \<in> set variants"
    and s: "prefix (n @ ''('') s"
  shows "unnested (pre @ s) \<Longrightarrow> multi_sub rs (pre @ s) = multi_sub rs pre @ multi_sub rs s"
proof (induction pre rule: length_induct)
  case (1 pre)
  note ih = "1.IH" [rule_format]
  show ?case
  proof (cases pre)
    case Nil
    then show ?thesis by simp
  next
    case (Cons c cs)
    show ?thesis
    proof (cases "first_match rs (pre @ s)")
      case None
      have "first_match rs pre = None"
      proof (cases "first_match rs pre")
        case (Some p)
        obtain out rest where p: "p = (out, rest)" by (cases p)
        from first_match_SomeD [OF Some [unfolded p]] obtain k k1 k2 g
          where "(k, k1, k2) \<in> set rs" "match_at k pre = Some (g, rest)" by blast
        with match_at_append [of k pre g rest s] None show ?thesis
          by (auto simp: first_match_None_iff)
      qed
      moreover from "1.prems" Cons have "unnested (cs @ s)" by simp
      ultimately show ?thesis using None Cons ih [of cs] by simp
    next
      case (Some p)
      obtain out rest where p: "p = (out, rest)" by (cases p)
      from first_match_SomeD [OF Some [unfolded p]] obtain k k1 k2 g
        where k: "(k, k1, k2) \<in> set rs" and m: "match_at k (pre @ s) = Some (g, rest)"
          and out: "out = k1 @ g @ k2" by blast
      from k rs have kv: "(k, k1, k2) \<in> set variants" by auto
      from unnested_match [OF "1.prems" kv m] have g: "\<not> holds_call g" .
      let ?b = "k @ CHR ''('' # g @ [CHR '')'']"
      from m have e: "pre @ s = ?b @ rest" and gg: "g \<noteq> []" "CHR '')'' \<notin> set g"
        by (auto simp: match_at_Some_iff)
      from e obtain us where "(pre = ?b @ us \<and> us @ s = rest) \<or> (pre @ us = ?b \<and> s = us @ rest)"
        unfolding append_eq_append_conv2 by blast
      then obtain us where us: "pre = ?b @ us" "rest = us @ s"
      proof (elim disjE conjE)
        assume "pre = ?b @ us" "us @ s = rest"
        with that show thesis by blast
      next
        assume a: "pre @ us = ?b" "s = us @ rest"
        show thesis
        proof (cases "us = []")
          case True
          with a that [of "[]"] show thesis by simp
        next
          case False
          from call_block_no_prefix [OF n kv g a(1) [symmetric] _ False, of rest] Cons s a(2)
          show thesis by simp
        qed
      qed
      from us(1) gg have "match_at k pre = Some (g, us)" by (simp add: match_at_Some_iff)
      from first_match_SomeI [OF rs k this] out
      have "multi_sub rs pre = out @ multi_sub rs us" by (simp add: multi_sub_Some)
      moreover from us(1) have "length us < length pre" by simp
      moreover from "1.prems" us(1) have "unnested (us @ s)"
        using unnested_suffix [of ?b "us @ s"] by simp
      ultimately show ?thesis
        using ih [of us] multi_sub_Some [OF Some [unfolded p]] us(2) by simp
    qed
  qed
qed

lemma settled_no_call:
  assumes n: "(n, t1, t2) \<in> set variants"
  shows "multi_sub [(n, t1, t2)] y = y \<Longrightarrow> \<not> has_call n y"
proof (induction y)
  case Nil
  show ?case by simp
next
  case (Cons c cs)
  show ?case
  proof (cases "match_at n (c # cs)")
    case None
    with Cons show ?thesis by simp
  next
    case (Some p)
    obtain g rest where p: "p = (g, rest)" by (cases p)
    from Some p have "first_match [(n, t1, t2)] (c # cs) = Some (t1 @ g @ t2, rest)" by simp
    from multi_sub_Some [OF this] Cons.prems
    have "t1 @ g @ t2 @ multi_sub [(n, t1, t2)] rest = c # cs" by simp
    also from Some p have "c # cs = (n @ [CHR ''('']) @ g @ CHR '')'' # rest"
      by (simp add: match_at_Some_iff)
    finally have "t1 @ g @ t2 @ multi_sub [(n, t1, t2)] rest
        = (n @ [CHR ''('']) @ g @ CHR '')'' # rest" .
    moreover have "length (n @ [CHR ''('']) \<le> length t1" using variants_length [OF n n] by simp
    ultimately have "prefix (n @ [CHR ''('']) t1" by (metis prefixI prefix_length_prefix)
    then have "CHR ''('' \<in> set t1" by (auto dest: set_mono_prefix)
    with variants_templates(1) [OF n] show ?thesis by simp
  qed
qed

lemma empty_call_skipped:
  assumes rs: "set rs \<subseteq> set variants" and n: "(n, t1, t2) \<in> set variants"
  shows "multi_sub rs ((n @ ''()'') @ post) = (n @ ''()'') @ multi_sub rs post"
proof (rule multi_sub_skip)
  fix u v assume uv: "n @ ''()'' = u @ v" and v: "v \<noteq> []"
  have "match_at k (v @ post) = None" if k: "(k, k1, k2) \<in> set variants" for k k1 k2
  proof (rule ccontr)
    assume "match_at k (v @ post) \<noteq> None"
    then obtain g rest where m: "v @ post = k @ CHR ''('' # g @ CHR '')'' # rest" "g \<noteq> []"
      "CHR '')'' \<notin> set g"
      using match_at_exists_iff [of k "v @ post"] by auto
    then have "prefix (k @ [CHR ''('']) (v @ post)" by (simp add: prefix_def)
    then show False
    proof (rule lit_prefix_cases [THEN disjE])
      assume p: "prefix v k"
      from uv v have "last v = CHR '')''" by (metis last_appendR last_snoc append_assoc
            append_Cons append_Nil)
      with v have "CHR '')'' \<in> set v" by (metis last_in_set)
      with p variants_names(2) [OF k] show False by (auto dest: set_mono_prefix)
    next
      assume "prefix (k @ [CHR ''('']) v"
      then obtain w where w: "v = k @ CHR ''('' # w" by (auto simp: prefix_def)
      with uv have "n @ ''()'' = u @ k @ CHR ''('' # w" by simp
      then obtain us where "(n = u @ us \<and> us @ ''()'' = k @ CHR ''('' # w)
          \<or> (n @ us = u \<and> ''()'' = us @ k @ CHR ''('' # w)"
        unfolding append_eq_append_conv2 by blast
      then have "w = '')''"
      proof (elim disjE conjE)
        assume a: "n = u @ us" "us @ ''()'' = k @ CHR ''('' # w"
        from a(1) variants_names(1) [OF n] have "CHR ''('' \<notin> set us" by simp
        with a(2) variants_names(1) [OF k] have "us = k"
          using first_occurrence [of "CHR ''(''" us k "'')''" w] by simp
        with a(2) show ?thesis by simp
      next
        assume a: "n @ us = u" "''()'' = us @ k @ CHR ''('' # w"
        from k have "k \<noteq> []" and "hd k \<noteq> CHR ''(''" by (auto simp: variants_def)
        with a(2) show ?thesis
          by (cases us; cases k) (auto simp: Cons_eq_append_conv)
      qed
      with w m(1) have "CHR '')'' # post = g @ CHR '')'' # rest" by simp
      with m(2,3) show False by (cases g) auto
    qed
  qed
  with rs show "first_match rs (v @ post) = None" by (auto simp: first_match_None_iff)
qed

section \<open>Idempotence\<close>

text \<open>
  C5, as the script has it: on every unnested text, rewriting the rewritten text again
  changes nothing. (The claim is stated for every text; it fails where a captured
  argument holds another of the three calls, see the counterexample.)
\<close>

theorem fix_idempotent_unnested:
  assumes "unnested content"
  shows "fix_error_variants (fix_error_variants content) = fix_error_variants content"
proof -
  let ?m = "multi_sub variants content"
  have "fix_error_variants ?m = ?m"
    unfolding fix_error_variants_def Let_def rules_as_multi
    by (simp only: multi_sub_settled [OF assms variants_nth(1)]
        multi_sub_settled [OF assms variants_nth(2)] multi_sub_settled [OF assms variants_nth(3)])
  then show ?thesis by (simp add: fix_as_multi [OF assms])
qed

theorem fix_idempotent_unnested_witness:
  \<open>unnested ''Err(DbError::InvalidData(e.to_string()))''
   \<and> fix_error_variants (fix_error_variants ''Err(DbError::InvalidData(e.to_string()))'')
       = fix_error_variants ''Err(DbError::InvalidData(e.to_string()))''\<close>
proof -
  have u: \<open>unnested ''Err(DbError::InvalidData(e.to_string()))''\<close>
    by (simp add: nest_eval match_at_def)
  from fix_idempotent_unnested [OF u] u show ?thesis by blast
qed

text \<open>
  Where an \<^verbatim>\<open>InternalError\<close> call is the argument of another, the first run leaves the
  inner call with the outer closing parenthesis behind it, and the second run rewrites it.
\<close>

theorem fix_idempotent_counterexample:
  \<open>fix_error_variants (fix_error_variants ''DbError::InternalError(DbError::InternalError(x))'')
   \<noteq> fix_error_variants ''DbError::InternalError(DbError::InternalError(x))''\<close>
  by (simp add: fix_eval)

section \<open>The order of the rules\<close>

text \<open>
  C6, as the script has it: on every unnested text, the three rules applied in each of the
  five other orders give what \<open>fix_error_variants\<close> gives, which applies them in the order
  of the script. (The claim is stated for every text; it fails where the argument of one
  variant's call holds a call of another variant, see the counterexample.)
\<close>

theorem rules_commute_unnested:
  assumes "unnested content"
  shows "rule_signature (rule_internal (rule_invalid content)) = fix_error_variants content
       \<and> rule_invalid (rule_signature (rule_internal content)) = fix_error_variants content
       \<and> rule_internal (rule_signature (rule_invalid content)) = fix_error_variants content
       \<and> rule_invalid (rule_internal (rule_signature content)) = fix_error_variants content
       \<and> rule_internal (rule_invalid (rule_signature content)) = fix_error_variants content"
proof -
  note v = variants_nth and any = three_rules_any_order [OF assms]
  have a: "rule_signature (rule_internal (rule_invalid content)) = fix_error_variants content"
    unfolding fix_as_multi [OF assms] rules_as_multi
    by (rule any [OF v(2) v(1) v(3)]) (auto simp: variants_def)
  have b: "rule_invalid (rule_signature (rule_internal content)) = fix_error_variants content"
    unfolding fix_as_multi [OF assms] rules_as_multi
    by (rule any [OF v(1) v(3) v(2)]) (auto simp: variants_def)
  have c: "rule_internal (rule_signature (rule_invalid content)) = fix_error_variants content"
    unfolding fix_as_multi [OF assms] rules_as_multi
    by (rule any [OF v(2) v(3) v(1)]) (auto simp: variants_def)
  have d: "rule_invalid (rule_internal (rule_signature content)) = fix_error_variants content"
    unfolding fix_as_multi [OF assms] rules_as_multi
    by (rule any [OF v(3) v(1) v(2)]) (auto simp: variants_def)
  have e: "rule_internal (rule_invalid (rule_signature content)) = fix_error_variants content"
    unfolding fix_as_multi [OF assms] rules_as_multi
    by (rule any [OF v(3) v(2) v(1)]) (auto simp: variants_def)
  from a b c d e show ?thesis by blast
qed

theorem rules_commute_unnested_witness:
  \<open>unnested ''Err(DbError::InternalError(a)); Err(DbError::SignatureError(f(b)))''
   \<and> rule_signature (rule_internal (rule_invalid ''Err(DbError::InternalError(a)); Err(DbError::SignatureError(f(b)))'')) = fix_error_variants ''Err(DbError::InternalError(a)); Err(DbError::SignatureError(f(b)))''
   \<and> rule_invalid (rule_signature (rule_internal ''Err(DbError::InternalError(a)); Err(DbError::SignatureError(f(b)))'')) = fix_error_variants ''Err(DbError::InternalError(a)); Err(DbError::SignatureError(f(b)))''
   \<and> rule_internal (rule_signature (rule_invalid ''Err(DbError::InternalError(a)); Err(DbError::SignatureError(f(b)))'')) = fix_error_variants ''Err(DbError::InternalError(a)); Err(DbError::SignatureError(f(b)))''
   \<and> rule_invalid (rule_internal (rule_signature ''Err(DbError::InternalError(a)); Err(DbError::SignatureError(f(b)))'')) = fix_error_variants ''Err(DbError::InternalError(a)); Err(DbError::SignatureError(f(b)))''
   \<and> rule_internal (rule_invalid (rule_signature ''Err(DbError::InternalError(a)); Err(DbError::SignatureError(f(b)))'')) = fix_error_variants ''Err(DbError::InternalError(a)); Err(DbError::SignatureError(f(b)))''\<close>
proof -
  have u: \<open>unnested ''Err(DbError::InternalError(a)); Err(DbError::SignatureError(f(b)))''\<close>
    by (simp add: nest_eval match_at_def)
  from rules_commute_unnested [OF u] u show ?thesis by blast
qed

text \<open>
  With an \<^verbatim>\<open>InvalidData\<close> call as the argument of an \<^verbatim>\<open>InternalError\<close> call, the
  order of the script rewrites the outer call first and the later rule then matches text
  the earlier replacement produced; with \<^verbatim>\<open>InvalidData\<close> first the result differs.
\<close>

theorem rules_commute_counterexample:
  \<open>rule_signature (rule_internal (rule_invalid ''DbError::InternalError(DbError::InvalidData(x))''))
   \<noteq> fix_error_variants ''DbError::InternalError(DbError::InvalidData(x))''\<close>
  by (simp add: fix_eval)

section \<open>A call with a parenthesis-free argument\<close>

text \<open>
  C2, as the script has it: in an unnested text, a call \<^verbatim>\<open>DbError::InternalError(X)\<close>
  with \<open>X\<close> not empty and free of parentheses is found in the output as
  \<^verbatim>\<open>DbError::InternalError { message: X, context: None, debug_info: None }\<close>, and the
  pattern of the first rule matches nowhere in the output. (The claim is stated for any
  enum path and any text, and excludes every further \<^verbatim>\<open>InternalError(\<close>; see the
  counterexample.)
\<close>

theorem internal_call_converted:
  assumes u: "unnested content"
    and c: "content = pre @ ''DbError::InternalError('' @ X @ '')'' @ post"
    and x: "X \<noteq> []" "CHR ''('' \<notin> set X" "CHR '')'' \<notin> set X"
  shows "sublist (''DbError::InternalError { message: '' @ X @ '', context: None, debug_info: None }'')
           (fix_error_variants content)
         \<and> \<not> has_call ''DbError::InternalError'' (fix_error_variants content)"
proof
  let ?n = "''DbError::InternalError''"
  let ?v = "variants ! 0"
  have v: "?v = (?n, ''DbError::InternalError { message: '', '', context: None, debug_info: None }'')"
    by (simp add: variants_def)
  let ?s = "?n @ CHR ''('' # X @ CHR '')'' # post"
  from c have c': "content = pre @ ?s" by simp
  have "match_at ?n ?s = Some (X, post)" using x by (simp only: match_at_Some_iff) simp
  then have "first_match variants ?s
      = Some (''DbError::InternalError { message: '' @ X @ '', context: None, debug_info: None }'', post)"
    by (simp add: variants_def)
  from multi_sub_Some [OF this]
  have "multi_sub variants content = multi_sub variants pre
      @ (''DbError::InternalError { message: '' @ X @ '', context: None, debug_info: None }'')
      @ multi_sub variants post"
    using multi_sub_split [OF subset_refl variants_nth(1) [unfolded v], of ?s pre] u c'
    by (simp add: prefix_def)
  then show "sublist (''DbError::InternalError { message: '' @ X @ '', context: None, debug_info: None }'')
           (fix_error_variants content)"
    unfolding fix_as_multi [OF u] sublist_def by blast
  have "multi_sub [?v] (fix_error_variants content) = fix_error_variants content"
    unfolding fix_as_multi [OF u] by (rule multi_sub_settled [OF u variants_nth(1)])
  from settled_no_call [OF variants_nth(1) [unfolded v] this [unfolded v]]
  show "\<not> has_call ''DbError::InternalError'' (fix_error_variants content)" .
qed

theorem internal_call_converted_witness:
  \<open>unnested ''return Err(DbError::InternalError("boom"));''
   \<and> ''return Err(DbError::InternalError("boom"));''
       = ''return Err('' @ ''DbError::InternalError('' @ ''"boom"'' @ '')'' @ '');''
   \<and> ''"boom"'' \<noteq> [] \<and> CHR ''('' \<notin> set ''"boom"'' \<and> CHR '')'' \<notin> set ''"boom"''
   \<and> sublist (''DbError::InternalError { message: '' @ ''"boom"'' @ '', context: None, debug_info: None }'')
        (fix_error_variants ''return Err(DbError::InternalError("boom"));'')
   \<and> \<not> has_call ''DbError::InternalError''
        (fix_error_variants ''return Err(DbError::InternalError("boom"));'')\<close>
proof -
  have u: \<open>unnested ''return Err(DbError::InternalError("boom"));''\<close>
    by (simp add: nest_eval match_at_def)
  have c: \<open>''return Err(DbError::InternalError("boom"));''
       = ''return Err('' @ ''DbError::InternalError('' @ ''"boom"'' @ '')'' @ '');''\<close> by simp
  have x: \<open>''"boom"'' \<noteq> []\<close> \<open>CHR ''('' \<notin> set ''"boom"''\<close> \<open>CHR '')'' \<notin> set ''"boom"''\<close>
    by simp_all
  from internal_call_converted [OF u c x] u c x show ?thesis by blast
qed

text \<open>
  The text \<^verbatim>\<open>Foo::InternalError(x)\<close> is returned as it is: the pattern starts with the
  literal \<^verbatim>\<open>DbError::\<close>. And a \<^verbatim>\<open>DbError::InternalError\<close> call inside the
  argument of another is not converted, and its \<^verbatim>\<open>InternalError(\<close> stays.
\<close>

theorem internal_call_counterexample:
  \<open>fix_error_variants ''Foo::InternalError(x)'' = ''Foo::InternalError(x)''
   \<and> \<not> sublist ''Foo::InternalError { message: x, context: None, debug_info: None }''
         (fix_error_variants ''Foo::InternalError(x)'')
   \<and> sublist ''InternalError('' (fix_error_variants ''Foo::InternalError(x)'')
   \<and> fix_error_variants ''DbError::InternalError(DbError::InternalError(x))''
       = ''DbError::InternalError { message: DbError::InternalError(x, context: None, debug_info: None })''
   \<and> \<not> sublist ''DbError::InternalError { message: x, context: None, debug_info: None }''
         (fix_error_variants ''DbError::InternalError(DbError::InternalError(x))'')
   \<and> sublist ''InternalError('' (fix_error_variants ''DbError::InternalError(DbError::InternalError(x))'')\<close>
proof -
  have a: \<open>fix_error_variants ''Foo::InternalError(x)'' = ''Foo::InternalError(x)''\<close>
    by (simp add: fix_eval)
  have b: \<open>fix_error_variants ''DbError::InternalError(DbError::InternalError(x))''
       = ''DbError::InternalError { message: DbError::InternalError(x, context: None, debug_info: None })''\<close>
    by (simp add: fix_eval)
  show ?thesis unfolding a b by code_simp
qed

section \<open>Calls with an empty argument\<close>

text \<open>
  C9, as the script has it: in an unnested text, an empty-argument call \<^verbatim>\<open>DbError::V()\<close>
  of one of the three variants stays where it is, and the text before it and the text after
  it are rewritten each on its own. (The claim is stated for every text; it fails where the
  empty call is itself inside the argument of another call, see the counterexample.)
\<close>

theorem empty_call_kept:
  assumes u: "unnested content" and n: "n \<in> fst ` set variants"
    and c: "content = pre @ n @ ''()'' @ post"
  shows "fix_error_variants content
         = fix_error_variants pre @ n @ ''()'' @ fix_error_variants post"
proof -
  from n obtain t1 t2 where v: "(n, t1, t2) \<in> set variants" by auto
  from u c have up: "unnested pre" and us: "unnested post"
    using unnested_prefix [of pre "n @ ''()'' @ post"]
      unnested_suffix [of "pre @ n @ ''()''" post] by simp_all
  have "multi_sub variants content
      = multi_sub variants pre @ multi_sub variants ((n @ ''()'') @ post)"
    using multi_sub_split [OF subset_refl v, of "(n @ ''()'') @ post" pre] u c
    by (simp add: prefix_def)
  also have "\<dots> = multi_sub variants pre @ (n @ ''()'') @ multi_sub variants post"
    by (simp only: empty_call_skipped [OF subset_refl v])
  finally show ?thesis
    by (simp add: fix_as_multi [OF u] fix_as_multi [OF up] fix_as_multi [OF us])
qed

theorem empty_call_kept_witness:
  \<open>unnested ''f(a); DbError::SignatureError(); DbError::InvalidData(m)''
   \<and> ''DbError::SignatureError'' \<in> fst ` set variants
   \<and> ''f(a); DbError::SignatureError(); DbError::InvalidData(m)''
       = ''f(a); '' @ ''DbError::SignatureError'' @ ''()'' @ ''; DbError::InvalidData(m)''
   \<and> fix_error_variants ''f(a); DbError::SignatureError(); DbError::InvalidData(m)''
       = fix_error_variants ''f(a); '' @ ''DbError::SignatureError'' @ ''()''
         @ fix_error_variants ''; DbError::InvalidData(m)''\<close>
proof -
  have u: \<open>unnested ''f(a); DbError::SignatureError(); DbError::InvalidData(m)''\<close>
    by (simp add: nest_eval match_at_def)
  have n: \<open>''DbError::SignatureError'' \<in> fst ` set variants\<close> by (simp add: variants_def)
  have c: \<open>''f(a); DbError::SignatureError(); DbError::InvalidData(m)''
       = ''f(a); '' @ ''DbError::SignatureError'' @ ''()'' @ ''; DbError::InvalidData(m)''\<close> by simp
  from empty_call_kept [OF u n c] u n c show ?thesis by blast
qed

text \<open>
  An empty \<^verbatim>\<open>InternalError\<close> call as the argument of an \<^verbatim>\<open>InvalidData\<close> call: the
  second rule captures the opening of the inner call and takes its closing parenthesis.
\<close>

theorem empty_call_counterexample:
  \<open>sublist ''DbError::InternalError()'' ''DbError::InvalidData(DbError::InternalError())''
   \<and> \<not> sublist ''DbError::InternalError()''
         (fix_error_variants ''DbError::InvalidData(DbError::InternalError())'')\<close>
proof -
  have a: \<open>fix_error_variants ''DbError::InvalidData(DbError::InternalError())''
     = ''DbError::InvalidData { message: DbError::InternalError(, field: None, expected_format: None })''\<close>
    by (simp add: fix_eval)
  show ?thesis unfolding a by code_simp
qed

end
